theory Spec2Isabelle
  imports Main
begin

section \<open>The custom sliding-window rate limiter of rateLimiter.js\<close>

text \<open>
  The development embeds \<^verbatim>\<open>customRedisRateLimiter\<close> of \<^verbatim>\<open>src/rateLimiter.js\<close>.
  What the middleware does beyond computing a decision is made explicit:
  \<^item> the Redis store is a value (\<open>redis\<close>) that is passed in and returned; besides the
    key space it records every \<^verbatim>\<open>SET\<close> it received, so that "no write" can be told
    from "a write of the same value";
  \<^item> the two readings of the clock (\<^verbatim>\<open>moment()\<close> on lines 42 and 58) are two
    parameters, in milliseconds since the epoch;
  \<^item> the three ways the middleware can end are the three constructors of \<open>response\<close>;
  \<^item> an exception raised inside the \<^verbatim>\<open>try\<close> block is a value of \<open>js_error\<close>, handed to
    \<^verbatim>\<open>next\<close> by the \<^verbatim>\<open>catch\<close> clause.

  Outside the model: a rejected promise of the Redis client (a transport failure); the
  store answers every \<^verbatim>\<open>GET\<close> and \<^verbatim>\<open>SET\<close>. The response object is taken to carry
  \<^verbatim>\<open>res.jsend\<close>. The client key \<^verbatim>\<open>req.ip\<close> is a string.
\<close>

subsection \<open>Constants\<close>

definition WINDOW_SIZE_IN_HOURS :: int where
  "WINDOW_SIZE_IN_HOURS = 24"

definition MAX_WINDOW_REQUEST_COUNT :: int where
  "MAX_WINDOW_REQUEST_COUNT = 110"

definition WINDOW_LOG_INTERVAL_IN_HOURS :: int where
  "WINDOW_LOG_INTERVAL_IN_HOURS = 1"

subsection \<open>Time: the moment library\<close>

text \<open>
  A moment wraps a number of milliseconds since the epoch. \<^verbatim>\<open>unix()\<close> is
  \<^verbatim>\<open>Math.floor(valueOf() / 1000)\<close>; division on \<open>int\<close> rounds down as well.
  \<^verbatim>\<open>subtract(n, 'hours')\<close> moves the moment back by \<open>n\<close> hours of 3600000 ms. Moments are
  mutable: \<^verbatim>\<open>subtract\<close> changes the object it is called on and returns that same object,
  so the model hands the changed value on to every later use of the variable.
\<close>

type_synonym moment = int

definition unix :: "moment \<Rightarrow> int" where
  "unix m = m div 1000"

definition subtract_hours :: "moment \<Rightarrow> int \<Rightarrow> moment" where
  "subtract_hours m n = m - n * 3600000"

subsection \<open>Stored values and JavaScript numbers\<close>

text \<open>
  The value of a field of a log entry, as far as this model goes: the property is absent
  (reading it gives \<^verbatim>\<open>undefined\<close>), it is \<^verbatim>\<open>null\<close>, or it is a number. In the store a
  number is an integer literal. In memory a number is a double: \<open>Num n\<close> is the double
  with the integer value \<open>n\<close>, and \<open>NaN\<close> and the two infinities are the doubles that
  arithmetic on integers can reach besides.
\<close>

datatype js_value = Undefined | Null | NaN | PosInfinity | NegInfinity | Num int

record entry =
  requestTimeStamp :: js_value
  requestCount :: js_value

text \<open>
  A double has a significand of 53 bits. Every integer up to \<open>2 ^ 53\<close> in magnitude is a
  double. A larger integer is rounded to the nearest integer of the form \<open>q * 2 ^ sh\<close>
  with \<open>q < 2 ^ 53\<close>, to the one with even \<open>q\<close> when two are equally near, and to an
  infinity when the rounded magnitude reaches \<open>2 ^ 1024\<close>. This is how \<^verbatim>\<open>JSON.parse\<close>
  reads an integer literal and how the sum of two doubles is formed.
\<close>

function bit_length :: "int \<Rightarrow> nat" where
  "bit_length n = (if n \<le> 0 then 0 else Suc (bit_length (n div 2)))"
  by pat_completeness auto
termination
  by (relation "measure nat") auto

declare bit_length.simps [simp del]

definition round_magnitude :: "int \<Rightarrow> int" where
  "round_magnitude a =
     (let sh = bit_length a - 53;
          q = a div 2 ^ sh;
          rest = a mod 2 ^ sh;
          q' = (if 2 * rest > 2 ^ sh \<or> (2 * rest = 2 ^ sh \<and> odd q) then q + 1 else q)
      in q' * 2 ^ sh)"

definition to_double :: "int \<Rightarrow> js_value" where
  "to_double s =
     (if \<bar>s\<bar> \<le> 2 ^ 53 then Num s
      else
        (let m = round_magnitude \<bar>s\<bar>
         in if m \<ge> 2 ^ 1024 then (if s > 0 then PosInfinity else NegInfinity)
            else Num (if s < 0 then - m else m)))"

text \<open>
  A stored string is represented by what \<^verbatim>\<open>JSON.parse\<close> makes of it: a string that is
  not JSON (\<^verbatim>\<open>JSON.parse\<close> throws a SyntaxError), JSON that is not an array (a number, a
  string, a boolean, null or an object; none of them has a \<^verbatim>\<open>filter\<close> method), or an
  array of entries. The entries of the model are objects with at most the two fields
  above. Arrays with entries that are not objects, and fields that hold a string, a
  boolean, a fraction, an array or an object, are not represented.
\<close>

datatype redis_value = Not_JSON | Not_Array | Array "entry list"

datatype js_error = SyntaxError | TypeError

definition ToNumber :: "js_value \<Rightarrow> js_value" where
  "ToNumber v = (case v of Undefined \<Rightarrow> NaN | Null \<Rightarrow> Num 0 | _ \<Rightarrow> v)"

definition js_gt :: "js_value \<Rightarrow> int \<Rightarrow> bool" where
  \<comment> \<open>\<^verbatim>\<open>v > n\<close>: false whenever an operand converts to NaN\<close>
  "js_gt v n = (case ToNumber v of Num a \<Rightarrow> a > n | PosInfinity \<Rightarrow> True | _ \<Rightarrow> False)"

definition js_ge :: "js_value \<Rightarrow> int \<Rightarrow> bool" where
  \<comment> \<open>\<^verbatim>\<open>v >= n\<close>\<close>
  "js_ge v n = (case ToNumber v of Num a \<Rightarrow> a \<ge> n | PosInfinity \<Rightarrow> True | _ \<Rightarrow> False)"

fun add_doubles :: "js_value \<Rightarrow> js_value \<Rightarrow> js_value" where
  "add_doubles (Num x) (Num y) = to_double (x + y)"
| "add_doubles NaN _ = NaN"
| "add_doubles _ NaN = NaN"
| "add_doubles PosInfinity NegInfinity = NaN"
| "add_doubles NegInfinity PosInfinity = NaN"
| "add_doubles PosInfinity _ = PosInfinity"
| "add_doubles _ PosInfinity = PosInfinity"
| "add_doubles NegInfinity _ = NegInfinity"
| "add_doubles _ NegInfinity = NegInfinity"
| "add_doubles _ _ = NaN"

definition js_add :: "js_value \<Rightarrow> js_value \<Rightarrow> js_value" where
  \<comment> \<open>\<^verbatim>\<open>a + b\<close> on operands that are not strings or objects: both are converted to
      numbers, and the sum of two doubles is their exact sum, rounded\<close>
  "js_add a b = add_doubles (ToNumber a) (ToNumber b)"

definition parse_number :: "js_value \<Rightarrow> js_value" where
  \<comment> \<open>an integer literal is read as the nearest double\<close>
  "parse_number v = (case v of Num n \<Rightarrow> to_double n | _ \<Rightarrow> v)"

definition JSON_parse :: "redis_value \<Rightarrow> js_error + entry list option" where
  \<comment> \<open>\<open>Inr None\<close>: the text parsed, to a value that is not an array\<close>
  "JSON_parse s =
     (case s of
        Not_JSON \<Rightarrow> Inl SyntaxError
      | Not_Array \<Rightarrow> Inr None
      | Array xs \<Rightarrow>
          Inr (Some (map (\<lambda>e. \<lparr>requestTimeStamp = parse_number (requestTimeStamp e),
                                  requestCount = parse_number (requestCount e)\<rparr>) xs)))"

definition stringify_number :: "js_value \<Rightarrow> js_value" where
  \<comment> \<open>\<^verbatim>\<open>JSON.stringify\<close> writes NaN and the infinities as null, leaves an undefined
      property out, and writes a finite double as a literal that reads back as that double\<close>
  "stringify_number v =
     (case v of NaN \<Rightarrow> Null | PosInfinity \<Rightarrow> Null | NegInfinity \<Rightarrow> Null | _ \<Rightarrow> v)"

definition JSON_stringify :: "entry list \<Rightarrow> redis_value" where
  "JSON_stringify xs =
     Array (map (\<lambda>e. \<lparr>requestTimeStamp = stringify_number (requestTimeStamp e),
                       requestCount = stringify_number (requestCount e)\<rparr>) xs)"

subsection \<open>The store\<close>

record redis =
  db :: "string \<rightharpoonup> redis_value"
  set_calls :: "(string \<times> redis_value) list"

definition getAsync :: "redis \<Rightarrow> string \<Rightarrow> redis_value option" where
  "getAsync r k = db r k"

definition setAsync :: "redis \<Rightarrow> string \<Rightarrow> redis_value \<Rightarrow> redis" where
  "setAsync r k v = r\<lparr>db := (db r)(k \<mapsto> v), set_calls := set_calls r @ [(k, v)]\<rparr>"

subsection \<open>The middleware\<close>

datatype response =
    Next \<comment> \<open>\<^verbatim>\<open>next()\<close>: the request is allowed\<close>
  | Status429 string \<comment> \<open>\<^verbatim>\<open>res.status(429).jsend.error(message)\<close>: the request is denied\<close>
  | NextError js_error \<comment> \<open>\<^verbatim>\<open>next(error)\<close>\<close>

definition exceeded_message :: string where
  "exceeded_message = ''You have exceeded the 110 requests in 24 hrs limit!''"

definition customRedisRateLimiter :: "redis \<Rightarrow> string \<Rightarrow> moment \<Rightarrow> moment \<Rightarrow> response \<times> redis" where
  "customRedisRateLimiter r ip clock1 clock2 =
    (let currentRequestTime = clock1 in
     case getAsync r ip of
       None \<Rightarrow>
         (let newRecord = [\<lparr>requestTimeStamp = Num (unix currentRequestTime),
                             requestCount = Num 1\<rparr>]
          in (Next, setAsync r ip (JSON_stringify newRecord)))
     | Some record \<Rightarrow>
         (case JSON_parse record of
            Inl error \<Rightarrow> (NextError error, r)
          | Inr None \<Rightarrow> (NextError TypeError, r)
          | Inr (Some data) \<Rightarrow>
              (let windowStartTimestamp = unix (subtract_hours clock2 WINDOW_SIZE_IN_HOURS);
                   requestsWithinWindow =
                     filter (\<lambda>entry. js_gt (requestTimeStamp entry) windowStartTimestamp) data;
                   totalWindowRequestsCount =
                     foldl (\<lambda>accumulator entry. js_add accumulator (requestCount entry))
                       (Num 0) requestsWithinWindow
               in if js_ge totalWindowRequestsCount MAX_WINDOW_REQUEST_COUNT
                  then (Status429 exceeded_message, r)
                  else if data = [] then (NextError TypeError, r)
                  else
                    (let lastRequestLog = data ! (length data - 1);
                         currentRequestTime = subtract_hours currentRequestTime
                                                WINDOW_LOG_INTERVAL_IN_HOURS;
                         potentialCurrentWindowIntervalStartTimeStamp = unix currentRequestTime
                     in if js_gt (requestTimeStamp lastRequestLog)
                             potentialCurrentWindowIntervalStartTimeStamp
                        then
                          (let lastRequestLog = lastRequestLog
                                 \<lparr>requestCount := js_add (requestCount lastRequestLog) (Num 1)\<rparr>;
                               data = data[length data - 1 := lastRequestLog]
                           in (Next, setAsync r ip (JSON_stringify data)))
                        else
                          (let data = data @ [\<lparr>requestTimeStamp = Num (unix currentRequestTime),
                                                requestCount = Num 1\<rparr>]
                           in (Next, setAsync r ip (JSON_stringify data)))))))"

text \<open>
  Where the source differs from a first reading:
  \<^item> \<^verbatim>\<open>data.filter\<close> on a parsed value that is not an array is a TypeError;
  \<^item> on an empty array \<^verbatim>\<open>data[data.length - 1]\<close> is \<^verbatim>\<open>undefined\<close>, and reading
    \<^verbatim>\<open>requestTimeStamp\<close> from it on line 71 is a TypeError;
  \<^item> line 69 subtracts the interval from \<^verbatim>\<open>currentRequestTime\<close> itself, so line 76
    reads the moment one hour back.
\<close>

subsection \<open>Sequential evaluation for one client key\<close>

text \<open>
  One evaluation after the other, each on the store the previous one left; every
  evaluation comes with its two clock readings. The responses are returned in order.
\<close>

fun run :: "redis \<Rightarrow> string \<Rightarrow> (moment \<times> moment) list \<Rightarrow> response list \<times> redis" where
  "run r ip [] = ([], r)"
| "run r ip ((clock1, clock2) # cs) =
     (let (resp, r') = customRedisRateLimiter r ip clock1 clock2;
          (resps, r'') = run r' ip cs
      in (resp # resps, r''))"

definition at_second :: "int \<Rightarrow> moment \<times> moment" where
  \<comment> \<open>both clock readings of an evaluation fall on second \<open>s\<close>\<close>
  "at_second s = (s * 1000, s * 1000)"

definition fresh_redis :: redis where
  "fresh_redis = \<lparr>db = Map.empty, set_calls = []\<rparr>"

definition denied :: "response \<Rightarrow> bool" where
  "denied resp = (case resp of Status429 _ \<Rightarrow> True | _ \<Rightarrow> False)"

definition allows_between ::
  "moment \<Rightarrow> moment \<Rightarrow> (moment \<times> moment) list \<Rightarrow> response list \<Rightarrow> nat" where
  \<comment> \<open>how many of the evaluations that arrived between \<open>a\<close> and \<open>b\<close> were allowed\<close>
  "allows_between a b cs resps =
     length (filter (\<lambda>(c, resp). resp = Next \<and> a \<le> fst c \<and> fst c \<le> b) (zip cs resps))"

text \<open>
  A clock reading is a time value of JavaScript: at most 8640000000000000 ms from the
  epoch, on either side.
\<close>

definition valid_time :: "moment \<Rightarrow> bool" where
  "valid_time c = (\<bar>c\<bar> \<le> 8640000000000000)"

definition valid_clocks :: "moment \<times> moment \<Rightarrow> bool" where
  "valid_clocks c = (valid_time (fst c) \<and> valid_time (snd c))"

definition allows_after :: "int \<Rightarrow> (moment \<times> moment) list \<Rightarrow> response list \<Rightarrow> nat" where
  \<comment> \<open>how many of the evaluations that arrived after second \<open>x\<close> were allowed\<close>
  "allows_after x cs resps =
     length (filter (\<lambda>(c, resp). resp = Next \<and> unix (fst c) > x) (zip cs resps))"

subsection \<open>Well-formed logs\<close>

text \<open>
  A well-formed log is an array of buckets, each with an integer timestamp and an
  integer count. \<open>window_total\<close> follows the specification's wording of the quota sum.
  A log is exact when every number in it is an integer that a double holds exactly, of
  magnitude at most \<open>2 ^ 53\<close>, and no count is negative.
\<close>

definition bucket :: "int \<Rightarrow> int \<Rightarrow> entry" where
  "bucket t c = \<lparr>requestTimeStamp = Num t, requestCount = Num c\<rparr>"

definition buckets :: "(int \<times> int) list \<Rightarrow> entry list" where
  "buckets bs = map (\<lambda>(t, c). bucket t c) bs"

definition window_total :: "int \<Rightarrow> (int \<times> int) list \<Rightarrow> int" where
  \<comment> \<open>the sum of the counts of the buckets that start after \<open>start\<close>\<close>
  "window_total start bs = sum_list (map snd (filter (\<lambda>b. fst b > start) bs))"

definition exact_int :: "int \<Rightarrow> bool" where
  "exact_int n = (\<bar>n\<bar> \<le> 2 ^ 53)"

definition exact_log :: "(int \<times> int) list \<Rightarrow> bool" where
  "exact_log bs = list_all (\<lambda>(t, c). exact_int t \<and> 0 \<le> c \<and> c \<le> 2 ^ 53) bs"

definition holds_log :: "redis_value option \<Rightarrow> (int \<times> int) list \<Rightarrow> bool" where
  \<comment> \<open>the value under a key is the well-formed log \<open>bs\<close>; no value counts as the empty log\<close>
  "holds_log v bs = (case v of None \<Rightarrow> bs = [] | Some x \<Rightarrow> x = Array (buckets bs))"

text \<open>
  What an allowed request does to an exact log, as \<open>step_cases\<close> below derives it from
  the middleware: the first request opens a bucket at its own time \<open>t\<close>; a later one
  raises the count of the last bucket when that bucket is later than \<open>t - 3600\<close>, and
  otherwise appends a bucket that starts at \<open>t - 3600\<close>. A count of \<open>2 ^ 53\<close> stays
  where it is: the double nearest to \<open>2 ^ 53 + 1\<close> is \<open>2 ^ 53\<close>.
\<close>

definition bump :: "int \<Rightarrow> int" where
  "bump c = (if c < 2 ^ 53 then c + 1 else c)"

definition admit :: "int \<Rightarrow> (int \<times> int) list \<Rightarrow> (int \<times> int) list" where
  "admit cutoff bs =
     (if fst (last bs) > cutoff then butlast bs @ [(fst (last bs), bump (snd (last bs)))]
      else bs @ [(cutoff, 1)])"

definition grow :: "int \<Rightarrow> (int \<times> int) list \<Rightarrow> (int \<times> int) list" where
  "grow t bs = (if bs = [] then [(t, 1)] else admit (t - 3600) bs)"

text \<open>
  A log extends another when it keeps every bucket of it in place, with the same
  timestamp and a count that is not smaller.
\<close>

definition extends :: "(int \<times> int) list \<Rightarrow> (int \<times> int) list \<Rightarrow> bool" where
  "extends old new =
     (length old \<le> length new \<and>
      list_all2 (\<lambda>b b'. fst b' = fst b \<and> snd b \<le> snd b') old (take (length old) new))"

text \<open>
  The sum that line 60 forms in doubles follows the exact sum \<open>s\<close> of non-negative
  counts in this sense: it is \<open>s\<close> up to \<open>2 ^ 53\<close>, and at least \<open>2 ^ 53\<close> beyond.
\<close>

definition tracks :: "js_value \<Rightarrow> int \<Rightarrow> bool" where
  "tracks v s =
     (if s \<le> 2 ^ 53 then v = Num s
      else (case v of Num m \<Rightarrow> 2 ^ 53 \<le> m | PosInfinity \<Rightarrow> True | _ \<Rightarrow> False))"

definition parsed :: "int \<times> int \<Rightarrow> entry" where
  \<comment> \<open>what \<^verbatim>\<open>JSON.parse\<close> makes of a bucket whose timestamp is exact\<close>
  "parsed b = \<lparr>requestTimeStamp = Num (fst b), requestCount = to_double (snd b)\<rparr>"

definition stored_length :: "redis_value option \<Rightarrow> nat" where
  \<comment> \<open>the number of entries of a stored log; 0 where there is no array\<close>
  "stored_length v = (case v of Some (Array xs) \<Rightarrow> length xs | _ \<Rightarrow> 0)"

definition store_of :: "string \<Rightarrow> redis_value \<Rightarrow> redis" where
  \<comment> \<open>a store that holds one value, under one key, and has seen no write yet\<close>
  "store_of ip v = \<lparr>db = [ip \<mapsto> v], set_calls = []\<rparr>"

definition spec_bucket_bound :: int where
  \<comment> \<open>\<^verbatim>\<open>ceil(windowSize / compactionInterval) + 1\<close>, the ceiling of the quotient of two
      integers written with \<open>div\<close>, which rounds down\<close>
  "spec_bucket_bound = - ((- WINDOW_SIZE_IN_HOURS) div WINDOW_LOG_INTERVAL_IN_HOURS) + 1"

subsection \<open>Scenarios\<close>

definition client :: string where
  "client = ''10.0.0.1''"

definition burst :: "(moment \<times> moment) list" where
  \<comment> \<open>a first request at second 0, 109 requests at second 1, two requests at second 86400\<close>
  "burst = at_second 0 # replicate 109 (at_second 1) @ [at_second 86400, at_second 86400]"

definition hourly :: "(moment \<times> moment) list" where
  \<comment> \<open>26 requests, one every full hour\<close>
  "hourly = map (\<lambda>k. at_second (k * 3600)) [0..25]"

section \<open>Auxiliary facts\<close>

subsection \<open>Rounding to a double\<close>

lemma bit_length_bounds:
  "0 < n \<Longrightarrow> 2 ^ (bit_length n - 1) \<le> n \<and> n < 2 ^ bit_length n"
proof (induction n rule: bit_length.induct)
  case (1 n)
  show ?case
  proof (cases "n div 2 > 0")
    case True
    with "1.IH" "1.prems" have ih: "2 ^ (bit_length (n div 2) - 1) \<le> n div 2"
      "n div 2 < 2 ^ bit_length (n div 2)"
      by auto
    have pos: "bit_length (n div 2) > 0"
      using True by (subst bit_length.simps) simp
    have bl: "bit_length n = Suc (bit_length (n div 2))"
      using "1.prems" by (subst bit_length.simps) simp
    have "2 * 2 ^ (bit_length (n div 2) - 1) \<le> n"
      using ih(1) by linarith
    moreover have "2 * (2::int) ^ (bit_length (n div 2) - 1) = 2 ^ bit_length (n div 2)"
      using pos by (cases "bit_length (n div 2)") simp_all
    moreover have "n < 2 * 2 ^ bit_length (n div 2)"
      using ih(2) by linarith
    ultimately show ?thesis
      by (simp add: bl)
  next
    case False
    with "1.prems" have n1: "n = 1"
      by linarith
    show ?thesis
      unfolding n1 by (simp add: bit_length.simps)
  qed
qed

lemma round_magnitude_big:
  assumes "2 ^ 53 \<le> a"
  shows "2 ^ 53 \<le> round_magnitude a"
proof -
  have a0: "0 < a"
    using assms by (smt (verit) zero_less_power)
  from bit_length_bounds [OF a0]
  have lo: "2 ^ (bit_length a - 1) \<le> a" and hi: "a < 2 ^ bit_length a"
    by simp_all
  have "(2::int) ^ 53 < 2 ^ bit_length a"
    using assms hi by linarith
  then have bl: "53 < bit_length a"
    by (rule power_less_imp_less_exp [rotated]) simp
  define sh where "sh = bit_length a - 53"
  have sh: "1 \<le> sh" and bl_eq: "bit_length a - 1 = 52 + sh"
    using bl by (simp_all add: sh_def)
  have "(2::int) ^ (bit_length a - 1) = 2 ^ 52 * 2 ^ sh"
    unfolding bl_eq by (rule power_add)
  with lo have m: "(2::int) ^ 52 * 2 ^ sh \<le> a"
    by (simp only:)
  have p: "(0::int) < 2 ^ sh"
    by simp
  have "((2::int) ^ 52 * 2 ^ sh) div 2 ^ sh \<le> a div 2 ^ sh"
    using m p by (rule zdiv_mono1)
  moreover have "((2::int) ^ 52 * 2 ^ sh) div 2 ^ sh = 2 ^ 52"
    by (rule nonzero_mult_div_cancel_right) simp
  ultimately have q: "2 ^ 52 \<le> a div 2 ^ sh"
    by (simp only:)
  define q' where "q' = (if 2 * (a mod 2 ^ sh) > 2 ^ sh \<or> (2 * (a mod 2 ^ sh) = 2 ^ sh \<and> odd (a div 2 ^ sh))
                         then a div 2 ^ sh + 1 else a div 2 ^ sh)"
  have q': "2 ^ 52 \<le> q'"
    using q by (simp add: q'_def)
  have "(2::int) ^ 1 \<le> 2 ^ sh"
    using sh by (intro power_increasing) simp_all
  then have two: "(2::int) \<le> 2 ^ sh"
    by simp
  have "(2::int) ^ 53 = 2 ^ 52 * 2"
    by simp
  also have "\<dots> \<le> q' * 2 ^ sh"
    using q' two by (intro mult_mono) simp_all
  finally show ?thesis
    by (simp add: round_magnitude_def Let_def sh_def [symmetric] q'_def)
qed

lemma to_double_exact: "\<bar>s\<bar> \<le> 2 ^ 53 \<Longrightarrow> to_double s = Num s"
  by (simp add: to_double_def)

lemma to_double_big:
  assumes "2 ^ 53 \<le> s"
  shows "to_double s = PosInfinity \<or> (\<exists>m. to_double s = Num m \<and> 2 ^ 53 \<le> m)"
proof (cases "s = 2 ^ 53")
  case True
  then show ?thesis by (simp add: to_double_def)
next
  case False
  with assms have "\<not> \<bar>s\<bar> \<le> 2 ^ 53" "0 < s" "\<bar>s\<bar> = s"
    by simp_all
  then show ?thesis
    using round_magnitude_big [OF assms]
    by (simp add: to_double_def Let_def)
qed

subsection \<open>Sums of non-negative counts\<close>

lemma tracks_big:
  "2 ^ 53 \<le> s \<Longrightarrow> v = PosInfinity \<or> (\<exists>m. v = Num m \<and> 2 ^ 53 \<le> m) \<Longrightarrow> s \<noteq> 2 ^ 53 \<or> v = Num s \<Longrightarrow> tracks v s"
  by (auto simp: tracks_def)

lemma to_double_nonneg:
  assumes "0 \<le> c"
  shows "tracks (to_double c) c"
proof (cases "c \<le> 2 ^ 53")
  case True
  with assms show ?thesis
    by (simp add: tracks_def to_double_exact)
next
  case False
  then have "2 ^ 53 \<le> c" by simp
  from to_double_big [OF this] False show ?thesis
    by (auto simp: tracks_def)
qed

lemma tracks_add:
  assumes "tracks v s" and "tracks w c" and "0 \<le> s" and "0 \<le> c"
  shows "tracks (js_add v w) (s + c)"
proof -
  consider (small) "s \<le> 2 ^ 53" "c \<le> 2 ^ 53"
    | (inf) "v = PosInfinity \<or> w = PosInfinity" "v = PosInfinity \<or> (\<exists>m. v = Num m \<and> 0 \<le> m)"
        "w = PosInfinity \<or> (\<exists>m. w = Num m \<and> 0 \<le> m)" "2 ^ 53 < s + c"
    | (big) m n where "v = Num m" "w = Num n" "0 \<le> m" "0 \<le> n" "2 ^ 53 \<le> m + n" "2 ^ 53 < s + c"
    using assms by (auto simp: tracks_def split: if_splits js_value.splits) 
  then show ?thesis
  proof cases
    case small
    with assms have v: "v = Num s" and w: "w = Num c"
      by (simp_all add: tracks_def)
    have "tracks (to_double (s + c)) (s + c)"
      using assms by (intro to_double_nonneg) simp
    then show ?thesis
      by (simp add: v w js_add_def ToNumber_def)
  next
    case inf
    then have "js_add v w = PosInfinity"
      by (auto simp: js_add_def ToNumber_def)
    with inf(4) show ?thesis
      by (simp add: tracks_def)
  next
    case big
    from to_double_big [OF big(5)]
    have "to_double (m + n) = PosInfinity \<or> (\<exists>k. to_double (m + n) = Num k \<and> 2 ^ 53 \<le> k)" .
    with big show ?thesis
      by (auto simp: tracks_def js_add_def ToNumber_def)
  qed
qed

lemma tracks_ge: "tracks v s \<Longrightarrow> js_ge v 110 = (110 \<le> s)"
  by (auto simp: tracks_def js_ge_def ToNumber_def split: if_splits js_value.splits)

lemma parse_buckets:
  assumes "list_all (\<lambda>b. exact_int (fst b)) bs"
  shows "JSON_parse (Array (buckets bs)) = Inr (Some (map parsed bs))"
  using assms
  by (induction bs)
    (auto simp: JSON_parse_def buckets_def bucket_def parsed_def parse_number_def
      exact_int_def to_double_exact)

lemma filter_parsed:
  "filter (\<lambda>entry. js_gt (requestTimeStamp entry) w) (map parsed bs)
     = map parsed (filter (\<lambda>b. fst b > w) bs)"
  by (induction bs) (auto simp: parsed_def js_gt_def ToNumber_def)

lemma foldl_parsed:
  assumes "list_all (\<lambda>b. 0 \<le> snd b) bs" and "tracks v s" and "0 \<le> s"
  shows "tracks (foldl (\<lambda>accumulator entry. js_add accumulator (requestCount entry)) v
           (map parsed bs)) (s + sum_list (map snd bs))"
  using assms
proof (induction bs arbitrary: v s)
  case Nil
  then show ?case by simp
next
  case (Cons b bs)
  have "tracks (js_add v (requestCount (parsed b))) (s + snd b)"
    using Cons.prems by (intro tracks_add to_double_nonneg) (simp_all add: parsed_def to_double_nonneg)
  from Cons.IH [OF _ this] Cons.prems show ?case
    by (simp add: add.assoc)
qed

lemma total_parsed:
  assumes "list_all (\<lambda>b. 0 \<le> snd b) bs"
  shows "js_ge (foldl (\<lambda>accumulator entry. js_add accumulator (requestCount entry)) (Num 0)
           (filter (\<lambda>entry. js_gt (requestTimeStamp entry) w) (map parsed bs))) 110
         = (110 \<le> window_total w bs)"
proof -
  have f: "list_all (\<lambda>b. 0 \<le> snd b) (filter (\<lambda>b. fst b > w) bs)"
    using assms by (simp add: list_all_iff)
  have "tracks (Num 0) 0"
    by (simp add: tracks_def)
  from foldl_parsed [OF f this] show ?thesis
    by (simp add: filter_parsed window_total_def tracks_ge)
qed

subsection \<open>The middleware on exact logs\<close>

lemma to_double_after_limit: "to_double (2 ^ 53 + 1) = Num (2 ^ 53)"
  by code_simp

lemma increment_count:
  assumes "0 \<le> c" and "c \<le> 2 ^ 53"
  shows "js_add (Num c) (Num 1) = Num (bump c)"
proof (cases "c < 2 ^ 53")
  case True
  with assms show ?thesis
    by (simp add: js_add_def ToNumber_def bump_def to_double_exact)
next
  case False
  with assms have "c = 2 ^ 53" by simp
  then show ?thesis
    using to_double_after_limit by (simp add: js_add_def ToNumber_def bump_def)
qed

lemma bucket_sel [simp]:
  "requestTimeStamp (bucket t c) = Num t" "requestCount (bucket t c) = Num c"
  by (simp_all add: bucket_def)

lemma length_buckets [simp]: "length (buckets bs) = length bs"
  by (simp add: buckets_def)

lemma buckets_Nil_iff [simp]: "buckets bs = [] \<longleftrightarrow> bs = []"
  by (simp add: buckets_def)

lemma stringify_buckets [simp]: "JSON_stringify (buckets bs) = Array (buckets bs)"
  by (induction bs)
    (auto simp: JSON_stringify_def buckets_def bucket_def stringify_number_def)

lemma db_setAsync [simp]: "db (setAsync r k v) k = Some v"
  by (simp add: setAsync_def)

lemma parsed_exact_log:
  assumes "exact_log bs"
  shows "map parsed bs = buckets bs"
  using assms
  by (induction bs)
    (auto simp: exact_log_def parsed_def buckets_def bucket_def to_double_exact)

lemma step_no_log:
  assumes "db r ip = None"
  shows "customRedisRateLimiter r ip clock1 clock2
           = (Next, setAsync r ip (Array [bucket (unix clock1) 1]))"
  using assms
  by (simp add: customRedisRateLimiter_def getAsync_def JSON_stringify_def
      stringify_number_def bucket_def Let_def)

lemma step_array:
  assumes "db r ip = Some v" and "JSON_parse v = Inr (Some data)"
    and "js_ge (foldl (\<lambda>accumulator entry. js_add accumulator (requestCount entry)) (Num 0)
           (filter (\<lambda>entry. js_gt (requestTimeStamp entry) (unix clock2 - 86400)) data)) 110
         = full"
    and "data \<noteq> []"
  shows "customRedisRateLimiter r ip clock1 clock2 =
     (if full then (Status429 exceeded_message, r)
      else if js_gt (requestTimeStamp (last data)) (unix clock1 - 3600)
      then (Next, setAsync r ip (JSON_stringify
              (data[length data - 1 :=
                 (last data)\<lparr>requestCount := js_add (requestCount (last data)) (Num 1)\<rparr>])))
      else (Next, setAsync r ip (JSON_stringify (data @ [bucket (unix clock1 - 3600) 1]))))"
proof -
  have u: "unix (subtract_hours clock2 24) = unix clock2 - 86400"
      "unix (subtract_hours clock1 1) = unix clock1 - 3600"
    by (simp_all add: unix_def subtract_hours_def)
  show ?thesis
    using assms
    by (simp add: customRedisRateLimiter_def getAsync_def Let_def u
      WINDOW_SIZE_IN_HOURS_def MAX_WINDOW_REQUEST_COUNT_def
      WINDOW_LOG_INTERVAL_IN_HOURS_def last_conv_nth bucket_def)
qed

lemma step_buckets:
  assumes "db r ip = Some (Array (buckets bs))" and "bs \<noteq> []" and "exact_log bs"
  shows "customRedisRateLimiter r ip clock1 clock2 =
     (if window_total (unix clock2 - 86400) bs \<ge> 110 then (Status429 exceeded_message, r)
      else (Next, setAsync r ip (Array (buckets (admit (unix clock1 - 3600) bs)))))"
proof -
  from assms(2) obtain bs0 t c where bs: "bs = bs0 @ [(t, c)]"
    by (metis surj_pair rev_exhaust)
  have c: "0 \<le> c" "c \<le> 2 ^ 53"
    using assms(3) by (simp_all add: bs exact_log_def)
  have e: "list_all (\<lambda>b. exact_int (fst b)) bs" and n: "list_all (\<lambda>b. 0 \<le> snd b) bs"
    using assms(3) by (auto simp: exact_log_def list_all_iff)
  have p: "JSON_parse (Array (buckets bs)) = Inr (Some (buckets bs))"
    using parse_buckets [OF e] parsed_exact_log [OF assms(3)] by simp
  have tot: "js_ge (foldl (\<lambda>accumulator entry. js_add accumulator (requestCount entry)) (Num 0)
           (filter (\<lambda>entry. js_gt (requestTimeStamp entry) (unix clock2 - 86400)) (buckets bs))) 110
         = (110 \<le> window_total (unix clock2 - 86400) bs)"
    using total_parsed [OF n] parsed_exact_log [OF assms(3)] by simp
  have lst: "last (buckets bs) = bucket t c"
    by (simp add: bs buckets_def)
  have upd: "(buckets bs)[length (buckets bs) - 1 := bucket t (bump c)]
               = buckets (bs0 @ [(t, bump c)])"
    by (simp add: bs buckets_def list_update_append)
  have b1: "bucket t c\<lparr>requestCount := Num (bump c)\<rparr> = bucket t (bump c)"
    by (simp add: bucket_def)
  have push: "buckets bs @ [bucket (unix clock1 - 3600) 1]
                = buckets (bs @ [(unix clock1 - 3600, 1)])"
    by (simp add: buckets_def)
  have adm: "admit (unix clock1 - 3600) bs =
      (if t > unix clock1 - 3600 then bs0 @ [(t, bump c)] else bs @ [(unix clock1 - 3600, 1)])"
    by (simp add: admit_def bs)
  have ne: "buckets bs \<noteq> []"
    using assms(2) by simp
  show ?thesis
    unfolding step_array [OF assms(1) p tot ne] lst adm
    using upd by (simp add: b1 push increment_count [OF c] js_gt_def ToNumber_def del: length_buckets)
qed

subsection \<open>What an allowed request does to an exact log\<close>

lemma step_cases:
  assumes "holds_log (db r ip) bs" and "exact_log bs"
  shows "(fst (customRedisRateLimiter r ip clock1 clock2) \<noteq> Next
            \<and> snd (customRedisRateLimiter r ip clock1 clock2) = r)
       \<or> (fst (customRedisRateLimiter r ip clock1 clock2) = Next
            \<and> holds_log (db (snd (customRedisRateLimiter r ip clock1 clock2)) ip)
                 (grow (unix clock1) bs)
            \<and> window_total (unix clock2 - 86400) bs < 110)"
proof (cases "db r ip")
  case None
  with assms(1) have "bs = []"
    by (simp add: holds_log_def)
  then show ?thesis
    using step_no_log [OF None, of clock1 clock2]
    by (simp add: holds_log_def grow_def buckets_def window_total_def)
next
  case (Some v)
  with assms(1) have v: "db r ip = Some (Array (buckets bs))"
    by (simp add: holds_log_def)
  show ?thesis
  proof (cases "bs = []")
    case True
    then show ?thesis
      using v by (simp add: customRedisRateLimiter_def getAsync_def JSON_parse_def buckets_def
          js_ge_def ToNumber_def MAX_WINDOW_REQUEST_COUNT_def)
  next
    case False
    show ?thesis
      using step_buckets [OF v False assms(2), of clock1 clock2] False
      by (simp add: holds_log_def grow_def)
  qed
qed

lemma unix_valid:
  assumes "valid_time c"
  shows "exact_int (unix c)" and "exact_int (unix c - 3600)"
proof -
  have "\<bar>c div 1000\<bar> \<le> 8640000000000"
    using assms unfolding valid_time_def by linarith
  then show "exact_int (unix c)" and "exact_int (unix c - 3600)"
    by (simp_all add: exact_int_def unix_def)
qed

lemma bump_bounds: "0 \<le> c \<Longrightarrow> c \<le> 2 ^ 53 \<Longrightarrow> 0 \<le> bump c \<and> bump c \<le> 2 ^ 53 \<and> c \<le> bump c"
  by (simp add: bump_def)

lemma exact_log_grow:
  assumes "exact_log bs" and "valid_time c"
  shows "exact_log (grow (unix c) bs)"
proof (cases "bs = []")
  case True
  then show ?thesis
    using unix_valid [OF assms(2)] by (simp add: grow_def exact_log_def)
next
  case False
  then obtain bs0 b where bs: "bs = bs0 @ [b]"
    by (metis rev_exhaust)
  show ?thesis
    using assms(1) unix_valid [OF assms(2)]
    by (auto simp: grow_def admit_def bs exact_log_def bump_def)
qed

lemma extends_refl [simp]: "extends bs bs"
  by (simp add: extends_def list_all2_same)

lemma extends_trans:
  assumes "extends a b" and "extends b c"
  shows "extends a c"
proof -
  have la: "length a \<le> length b" and lb: "length b \<le> length c"
    using assms by (simp_all add: extends_def)
  have ab: "list_all2 (\<lambda>b b'. fst b' = fst b \<and> snd b \<le> snd b') a (take (length a) b)"
    and bc: "list_all2 (\<lambda>b b'. fst b' = fst b \<and> snd b \<le> snd b') b (take (length b) c)"
    using assms by (simp_all add: extends_def)
  from bc have "list_all2 (\<lambda>b b'. fst b' = fst b \<and> snd b \<le> snd b')
                  (take (length a) b) (take (length a) (take (length b) c))"
    by (rule list_all2_takeI)
  then have bc': "list_all2 (\<lambda>b b'. fst b' = fst b \<and> snd b \<le> snd b')
                  (take (length a) b) (take (length a) c)"
    using la by (simp add: min_def)
  have "list_all2 (\<lambda>b b'. fst b' = fst b \<and> snd b \<le> snd b') a (take (length a) c)"
    by (rule list_all2_trans [OF _ ab bc']) auto
  then show ?thesis
    using la lb by (simp add: extends_def)
qed

lemma extends_grow:
  assumes "exact_log bs"
  shows "extends bs (grow t bs)"
proof (cases "bs = []")
  case True
  then show ?thesis by (simp add: extends_def grow_def)
next
  case False
  then obtain bs0 b where bs: "bs = bs0 @ [b]"
    by (metis rev_exhaust)
  show ?thesis
    using assms
    by (auto simp: grow_def admit_def bs extends_def exact_log_def bump_def list_all2_same
        list_all2_append)
qed

lemma length_grow: "length (grow t bs) \<le> length bs + 1"
  by (cases "bs = []") (auto simp: grow_def admit_def)

lemma window_total_grow_le:
  assumes "exact_log bs"
  shows "window_total y (grow t bs) \<le> window_total y bs + 1"
proof (cases "bs = []")
  case True
  then show ?thesis by (simp add: grow_def window_total_def)
next
  case False
  then obtain bs0 b where bs: "bs = bs0 @ [b]"
    by (metis rev_exhaust)
  show ?thesis
    by (auto simp: grow_def admit_def bs window_total_def bump_def)
qed

lemma window_total_nonneg:
  assumes "exact_log bs"
  shows "0 \<le> window_total y bs"
  using assms
  by (induction bs) (auto simp: exact_log_def window_total_def)

lemma window_total_append:
  "window_total y (bs @ bs') = window_total y bs + window_total y bs'"
  by (simp add: window_total_def)

lemma window_total_Cons:
  "window_total y (b # bs) = (if fst b > y then snd b else 0) + window_total y bs"
  "window_total y [] = 0"
  by (simp_all add: window_total_def)

lemma window_total_grow_accounts:
  assumes "exact_log bs"
    and "a \<le> window_total (x - 3600) bs \<or> 2 ^ 53 \<le> window_total (x - 3600) bs"
  shows "a + (if t > x then 1 else 0) \<le> window_total (x - 3600) (grow t bs)
         \<or> 2 ^ 53 \<le> window_total (x - 3600) (grow t bs)"
proof (cases "bs = []")
  case True
  with assms(2) show ?thesis
    by (auto simp: grow_def window_total_def)
next
  case False
  then obtain bs0 t0 c0 where bs: "bs = bs0 @ [(t0, c0)]"
    by (metis rev_exhaust surj_pair)
  have e0: "exact_log bs0" and c0: "0 \<le> c0" "c0 \<le> 2 ^ 53"
    using assms(1) by (simp_all add: bs exact_log_def)
  have n0: "0 \<le> window_total (x - 3600) bs0"
    by (rule window_total_nonneg [OF e0])
  show ?thesis
    using assms(2) c0 n0
    by (auto simp: grow_def admit_def bs window_total_append window_total_Cons bump_def
        split: if_splits)
qed

text \<open>
  An allowed request keeps the timestamps of a log in non-decreasing order and its counts
  positive.
\<close>

lemma admit_keeps_order:
  assumes "bs \<noteq> []" and "sorted (map fst bs)"
  shows "sorted (map fst (admit k bs))"
proof -
  from assms(1) obtain bs0 b where bs: "bs = bs0 @ [b]"
    by (metis rev_exhaust)
  show ?thesis
    using assms(2) by (auto simp: admit_def bs sorted_append)
qed

lemma admit_keeps_counts_positive:
  assumes "bs \<noteq> []" and "list_all (\<lambda>b. 1 \<le> snd b) bs"
  shows "list_all (\<lambda>b. 1 \<le> snd b) (admit k bs)"
proof -
  from assms(1) obtain bs0 b where bs: "bs = bs0 @ [b]"
    by (metis rev_exhaust)
  show ?thesis
    using assms(2) by (auto simp: admit_def bs bump_def)
qed

subsection \<open>Sequences of evaluations\<close>

lemma run_append:
  "run r ip (xs @ ys) =
     (let (a, r1) = run r ip xs; (b, r2) = run r1 ip ys in (a @ b, r2))"
  by (induction xs arbitrary: r) (auto simp: Let_def split: prod.splits)

lemma run_Cons:
  "run r ip (c # cs) =
     (fst (customRedisRateLimiter r ip (fst c) (snd c))
        # fst (run (snd (customRedisRateLimiter r ip (fst c) (snd c))) ip cs),
      snd (run (snd (customRedisRateLimiter r ip (fst c) (snd c))) ip cs))"
  by (cases c) (simp add: Let_def split: prod.splits)

lemma allows_after_Cons:
  "allows_after x (c # cs) (resp # resps)
     = (if resp = Next \<and> unix (fst c) > x then 1 else 0) + allows_after x cs resps"
  by (simp add: allows_after_def)

lemma length_run [simp]: "length (fst (run r ip cs)) = length cs"
  by (induction cs arbitrary: r) (simp_all add: run_Cons)

lemma step_log:
  assumes "holds_log (db r ip) bs" and "exact_log bs" and "valid_time clock1"
    and "\<forall>x. a x \<le> window_total (x - 3600) bs \<or> 2 ^ 53 \<le> window_total (x - 3600) bs"
  shows "\<exists>bs'. holds_log (db (snd (customRedisRateLimiter r ip clock1 clock2)) ip) bs'
           \<and> exact_log bs' \<and> extends bs bs'
           \<and> length bs' \<le> length bs
                + (if fst (customRedisRateLimiter r ip clock1 clock2) = Next then 1 else 0)
           \<and> (\<forall>x. a x + (if fst (customRedisRateLimiter r ip clock1 clock2) = Next
                                \<and> unix clock1 > x then 1 else 0)
                      \<le> window_total (x - 3600) bs'
                    \<or> 2 ^ 53 \<le> window_total (x - 3600) bs')
           \<and> (fst (customRedisRateLimiter r ip clock1 clock2) = Next
                \<longrightarrow> window_total (unix clock2 - 86400) bs' \<le> 110)"
  using step_cases [OF assms(1,2), of clock1 clock2]
proof (elim disjE conjE)
  assume "fst (customRedisRateLimiter r ip clock1 clock2) \<noteq> Next"
    and "snd (customRedisRateLimiter r ip clock1 clock2) = r"
  then show ?thesis
    using assms by (intro exI [of _ bs]) simp
next
  assume n: "fst (customRedisRateLimiter r ip clock1 clock2) = Next"
    and h: "holds_log (db (snd (customRedisRateLimiter r ip clock1 clock2)) ip)
              (grow (unix clock1) bs)"
    and w: "window_total (unix clock2 - 86400) bs < 110"
  have "window_total (unix clock2 - 86400) (grow (unix clock1) bs) \<le> 110"
    using window_total_grow_le [OF assms(2), of "unix clock2 - 86400" "unix clock1"] w
    by linarith
  moreover have "\<forall>x. a x + (if unix clock1 > x then 1 else 0)
                      \<le> window_total (x - 3600) (grow (unix clock1) bs)
                    \<or> 2 ^ 53 \<le> window_total (x - 3600) (grow (unix clock1) bs)"
    using window_total_grow_accounts [OF assms(2)] assms(4) by blast
  ultimately show ?thesis
    using n h exact_log_grow [OF assms(2,3)] extends_grow [OF assms(2)]
      length_grow [of "unix clock1" bs]
    by (intro exI [of _ "grow (unix clock1) bs"]) simp
qed

lemma run_log:
  assumes "holds_log (db r ip) bs" and "exact_log bs" and "list_all valid_clocks cs"
    and "\<forall>x. a x \<le> window_total (x - 3600) bs \<or> 2 ^ 53 \<le> window_total (x - 3600) bs"
  shows "\<exists>bs'. holds_log (db (snd (run r ip cs)) ip) bs'
           \<and> exact_log bs' \<and> extends bs bs'
           \<and> length bs' \<le> length bs + count_list (fst (run r ip cs)) Next
           \<and> (\<forall>x. a x + int (allows_after x cs (fst (run r ip cs)))
                      \<le> window_total (x - 3600) bs'
                    \<or> 2 ^ 53 \<le> window_total (x - 3600) bs')"
  using assms
proof (induction cs arbitrary: r bs a)
  case Nil
  then show ?case
    by (intro exI [of _ bs]) (simp add: allows_after_def)
next
  case (Cons c cs)
  let ?resp = "fst (customRedisRateLimiter r ip (fst c) (snd c))"
  let ?r1 = "snd (customRedisRateLimiter r ip (fst c) (snd c))"
  let ?a1 = "\<lambda>x. a x + (if ?resp = Next \<and> unix (fst c) > x then 1 else 0)"
  have vc: "valid_time (fst c)" and vcs: "list_all valid_clocks cs"
    using Cons.prems(3) by (simp_all add: valid_clocks_def [of c])
  from step_log [OF Cons.prems(1,2) vc Cons.prems(4), of "snd c"]
  obtain bs1 where h1: "holds_log (db ?r1 ip) bs1" and e1: "exact_log bs1"
    and x1: "extends bs bs1"
    and l1: "length bs1 \<le> length bs + (if ?resp = Next then 1 else 0)"
    and a1: "\<forall>x. ?a1 x \<le> window_total (x - 3600) bs1 \<or> 2 ^ 53 \<le> window_total (x - 3600) bs1"
    by blast
  from Cons.IH [OF h1 e1 vcs a1]
  obtain bs2 where h2: "holds_log (db (snd (run ?r1 ip cs)) ip) bs2" and e2: "exact_log bs2"
    and x2: "extends bs1 bs2"
    and l2: "length bs2 \<le> length bs1 + count_list (fst (run ?r1 ip cs)) Next"
    and a2: "\<forall>x. ?a1 x + int (allows_after x cs (fst (run ?r1 ip cs)))
                      \<le> window_total (x - 3600) bs2
                    \<or> 2 ^ 53 \<le> window_total (x - 3600) bs2"
    by blast
  have "length bs2 \<le> length bs + count_list (fst (run r ip (c # cs))) Next"
    using l1 l2 by (auto simp: run_Cons split: if_splits)
  moreover have "\<forall>x. a x + int (allows_after x (c # cs) (fst (run r ip (c # cs))))
                      \<le> window_total (x - 3600) bs2
                    \<or> 2 ^ 53 \<le> window_total (x - 3600) bs2"
  proof
    fix x
    have "a x + int (allows_after x (c # cs) (fst (run r ip (c # cs))))
            = ?a1 x + int (allows_after x cs (fst (run ?r1 ip cs)))"
      by (simp add: run_Cons allows_after_Cons)
    with a2 show "a x + int (allows_after x (c # cs) (fst (run r ip (c # cs))))
                      \<le> window_total (x - 3600) bs2
                    \<or> 2 ^ 53 \<le> window_total (x - 3600) bs2"
      by metis
  qed
  ultimately show ?case
    using h2 e2 extends_trans [OF x1 x2]
    by (intro exI [of _ bs2]) (simp add: run_Cons)
qed

section \<open>The properties of the specification\<close>

subsection \<open>The quota over a window\<close>

text \<open>
  C1. The specification bounds the number of Allow decisions whose triggering times lie
  in any interval of the window's length by the request limit. The middleware counts an
  allowed request at the recorded timestamp of its bucket, which is up to one log
  interval earlier than the request, so the bound holds for a window that is one log
  interval shorter: for one client key that starts without a log and is evaluated
  sequentially, with clock readings that are time values, after every Allow decision
  the Allow decisions so far whose triggering time is later than the current time minus
  the window size less the log interval number at most the request limit.
\<close>

theorem recent_allows_within_limit:
  assumes "db r ip = None"
    and "list_all valid_clocks (cs @ [(clock1, clock2)])"
    and "last (fst (run r ip (cs @ [(clock1, clock2)]))) = Next"
  shows "int (allows_after
                (unix clock2 - (WINDOW_SIZE_IN_HOURS - WINDOW_LOG_INTERVAL_IN_HOURS) * 3600)
                (cs @ [(clock1, clock2)]) (fst (run r ip (cs @ [(clock1, clock2)]))))
           \<le> MAX_WINDOW_REQUEST_COUNT"
proof -
  let ?r1 = "snd (run r ip cs)"
  let ?resp = "fst (customRedisRateLimiter ?r1 ip clock1 clock2)"
  let ?x = "unix clock2 - 82800"
  have all: "fst (run r ip (cs @ [(clock1, clock2)])) = fst (run r ip cs) @ [?resp]"
    by (simp add: run_append Let_def split: prod.splits)
  have resp: "?resp = Next"
    using assms(3) by (simp add: all)
  have v: "list_all valid_clocks cs" and v1: "valid_time clock1"
    using assms(2) by (simp_all add: valid_clocks_def [of "(clock1, clock2)"])
  have h0: "holds_log (db r ip) []"
    using assms(1) by (simp add: holds_log_def)
  have e0: "exact_log []"
    by (simp add: exact_log_def)
  have a0: "\<forall>x. (0::int) \<le> window_total (x - 3600) [] \<or> 2 ^ 53 \<le> window_total (x - 3600) []"
    by (simp add: window_total_def)
  from run_log [OF h0 e0 v a0]
  obtain bs1 where h1: "holds_log (db ?r1 ip) bs1" and e1: "exact_log bs1"
    and a1: "\<forall>x. 0 + int (allows_after x cs (fst (run r ip cs)))
                     \<le> window_total (x - 3600) bs1
                   \<or> 2 ^ 53 \<le> window_total (x - 3600) bs1"
    by blast
  from step_log [OF h1 e1 v1 a1, of clock2] resp
  obtain bs2 where
    a2: "\<forall>x. 0 + int (allows_after x cs (fst (run r ip cs)))
                 + (if unix clock1 > x then 1 else 0)
                     \<le> window_total (x - 3600) bs2
                   \<or> 2 ^ 53 \<le> window_total (x - 3600) bs2"
    and w2: "window_total (unix clock2 - 86400) bs2 \<le> 110"
    by auto
  have split: "allows_after ?x (cs @ [(clock1, clock2)]) (fst (run r ip cs) @ [?resp])
                 = allows_after ?x cs (fst (run r ip cs))
                   + (if unix clock1 > ?x then 1 else 0)"
    using resp by (simp add: allows_after_def)
  have "?x - 3600 = unix clock2 - 86400"
    by simp
  with a2 [rule_format, of ?x] w2
  have "int (allows_after ?x cs (fst (run r ip cs))) + (if unix clock1 > ?x then 1 else 0)
          \<le> 110"
    by auto
  then show ?thesis
    by (auto simp: all split WINDOW_SIZE_IN_HOURS_def WINDOW_LOG_INTERVAL_IN_HOURS_def
        MAX_WINDOW_REQUEST_COUNT_def split: if_splits)
qed

theorem recent_allows_within_limit_witness:
  "db fresh_redis client = None
   \<and> list_all valid_clocks ([at_second 0] @ [(30000, 30000)])
   \<and> last (fst (run fresh_redis client ([at_second 0] @ [(30000, 30000)]))) = Next
   \<and> int (allows_after
            (unix 30000 - (WINDOW_SIZE_IN_HOURS - WINDOW_LOG_INTERVAL_IN_HOURS) * 3600)
            ([at_second 0] @ [(30000, 30000)])
            (fst (run fresh_redis client ([at_second 0] @ [(30000, 30000)]))))
       \<le> MAX_WINDOW_REQUEST_COUNT"
proof -
  have h1: "db fresh_redis client = None"
    by (simp add: fresh_redis_def)
  have h2: "list_all valid_clocks ([at_second 0] @ [(30000, 30000)])"
    by (simp add: valid_clocks_def valid_time_def at_second_def)
  have h3: "last (fst (run fresh_redis client ([at_second 0] @ [(30000, 30000)]))) = Next"
    by code_simp
  show ?thesis
    using h1 h2 h3 recent_allows_within_limit [OF h1 h2 h3] by simp
qed

text \<open>
  The bound on Allow decisions by triggering time fails: a first request at second 0 and
  109 requests at second 1 fill the bucket that starts at second 0; at second 86400 that
  bucket is no longer later than the window start, and two more requests are allowed.
  The 111 requests allowed from second 1 to second 86400 lie in an interval shorter
  than the window.
\<close>

theorem allows_in_window_counterexample:
  "MAX_WINDOW_REQUEST_COUNT
     < int (allows_between 1000 86400000 burst (fst (run fresh_redis client burst)))
   \<and> 86400000 - 1000 < WINDOW_SIZE_IN_HOURS * 3600000"
  by code_simp

subsection \<open>The timestamp of a new bucket\<close>

text \<open>
  C2. The specification says that an allowed request that opens a new bucket stores
  \<^verbatim>\<open>{startTimestamp: now, count: 1}\<close>, and that the request at second 3700 of its scenario
  leaves the log \<^verbatim>\<open>[{t:0,count:2},{t:3700,count:1}]\<close>. The middleware reads the timestamp
  of the new bucket from \<^verbatim>\<open>currentRequestTime\<close> after line 69 has moved that moment back
  by the log interval: in the scenario the new bucket starts at second 100.
\<close>

theorem new_bucket_scenario:
  "db (snd (run fresh_redis client (map at_second [0, 30, 3700]))) client
     = Some (Array (buckets [(0, 2), (100, 1)]))"
  by code_simp

subsection \<open>The number of buckets\<close>

text \<open>
  C3. The specification bounds the number of stored buckets of a client by
  \<^verbatim>\<open>ceil(windowSize / compactionInterval) + 1\<close>. The middleware never removes a bucket, so
  what holds is this: over any sequence of evaluations for a client key that has no log
  or an exact log, with clock readings that are time values, every bucket stored before
  is still stored afterwards, in its place, with its timestamp and a count that is not
  smaller, and the number of buckets has grown by at most the number of Allow decisions
  of the sequence.
\<close>

theorem buckets_are_kept:
  assumes "holds_log (db r ip) bs"
    and "exact_log bs"
    and "list_all valid_clocks cs"
  shows "\<exists>bs'. holds_log (db (snd (run r ip cs)) ip) bs'
           \<and> extends bs bs'
           \<and> length bs' \<le> length bs + count_list (fst (run r ip cs)) Next"
proof -
  have "\<forall>x. window_total (x - 3600) bs \<le> window_total (x - 3600) bs
             \<or> 2 ^ 53 \<le> window_total (x - 3600) bs"
    by simp
  from run_log [OF assms this] show ?thesis
    by blast
qed

theorem buckets_are_kept_witness:
  "holds_log (db (store_of client (Array (buckets [(0, 2)]))) client) [(0, 2)]
   \<and> exact_log [(0, 2)]
   \<and> list_all valid_clocks (map at_second [3700, 3800])
   \<and> (\<exists>bs'. holds_log
               (db (snd (run (store_of client (Array (buckets [(0, 2)]))) client
                           (map at_second [3700, 3800]))) client) bs'
           \<and> extends [(0, 2)] bs'
           \<and> length bs' \<le> length [(0::int, 2::int)]
                + count_list (fst (run (store_of client (Array (buckets [(0, 2)]))) client
                                     (map at_second [3700, 3800]))) Next)"
proof -
  have h1: "holds_log (db (store_of client (Array (buckets [(0, 2)]))) client) [(0, 2)]"
    by (simp add: holds_log_def store_of_def)
  have h2: "exact_log [(0, 2)]"
    by (simp add: exact_log_def exact_int_def)
  have h3: "list_all valid_clocks (map at_second [3700, 3800])"
    by (simp add: valid_clocks_def valid_time_def at_second_def)
  show ?thesis
    using h1 h2 h3 buckets_are_kept [OF h1 h2 h3] by simp
qed

text \<open>
  One request every full hour, 26 of them: the log holds 26 buckets, one more than the
  bound of the specification.
\<close>

theorem bucket_bound_counterexample:
  "spec_bucket_bound < int (stored_length (db (snd (run fresh_redis client hourly)) client))"
  by code_simp

subsection \<open>The decision\<close>

text \<open>
  C4. On a stored well-formed log, with timestamps that a double holds exactly and counts
  that are not negative, the middleware denies the request exactly when the counts of
  the buckets whose timestamp is later than the current time minus the window add up to
  the request limit or more.
\<close>

theorem deny_iff_window_total_reaches_limit:
  assumes "db r ip = Some (Array (buckets bs))"
    and "list_all (\<lambda>(t, c). exact_int t \<and> 0 \<le> c) bs"
  shows "denied (fst (customRedisRateLimiter r ip clock1 clock2))
         = (window_total (unix clock2 - WINDOW_SIZE_IN_HOURS * 3600) bs
              \<ge> MAX_WINDOW_REQUEST_COUNT)"
proof -
  have e: "list_all (\<lambda>b. exact_int (fst b)) bs" and n: "list_all (\<lambda>b. 0 \<le> snd b) bs"
    using assms(2) by (auto simp: list_all_iff)
  have u: "unix (subtract_hours clock2 24) = unix clock2 - 86400"
    by (simp add: unix_def subtract_hours_def)
  show ?thesis
    using assms(1)
    by (simp add: customRedisRateLimiter_def getAsync_def parse_buckets [OF e] Let_def
        total_parsed [OF n] u WINDOW_SIZE_IN_HOURS_def MAX_WINDOW_REQUEST_COUNT_def denied_def)
qed

text \<open>
  With 109 requests recorded in the window the 110th request is allowed; with 110
  recorded the 111th is denied.
\<close>

theorem deny_iff_window_total_reaches_limit_witness:
  "db (store_of client (Array (buckets [(0, 109)]))) client = Some (Array (buckets [(0, 109)]))
   \<and> list_all (\<lambda>(t, c). exact_int t \<and> 0 \<le> c) [(0::int, 109::int)]
   \<and> \<not> denied (fst (customRedisRateLimiter
                    (store_of client (Array (buckets [(0, 109)]))) client 30000 30000))
   \<and> fst (customRedisRateLimiter
                    (store_of client (Array (buckets [(0, 109)]))) client 30000 30000) = Next
   \<and> db (store_of client (Array (buckets [(0, 110)]))) client = Some (Array (buckets [(0, 110)]))
   \<and> list_all (\<lambda>(t, c). exact_int t \<and> 0 \<le> c) [(0::int, 110::int)]
   \<and> denied (fst (customRedisRateLimiter
                    (store_of client (Array (buckets [(0, 110)]))) client 30000 30000))"
proof -
  have h1: "db (store_of client (Array (buckets [(0, 109)]))) client
              = Some (Array (buckets [(0, 109)]))"
    by (simp add: store_of_def)
  have e1: "list_all (\<lambda>(t, c). exact_int t \<and> 0 \<le> c) [(0::int, 109::int)]"
    by (simp add: exact_int_def)
  have h2: "db (store_of client (Array (buckets [(0, 110)]))) client
              = Some (Array (buckets [(0, 110)]))"
    by (simp add: store_of_def)
  have e2: "list_all (\<lambda>(t, c). exact_int t \<and> 0 \<le> c) [(0::int, 110::int)]"
    by (simp add: exact_int_def)
  have h3: "fst (customRedisRateLimiter
                    (store_of client (Array (buckets [(0, 109)]))) client 30000 30000) = Next"
    by code_simp
  show ?thesis
    using h1 h2 h3 e1 e2
      deny_iff_window_total_reaches_limit [OF h1 e1, of 30000 30000]
      deny_iff_window_total_reaches_limit [OF h2 e2, of 30000 30000]
    by (simp add: window_total_def unix_def WINDOW_SIZE_IN_HOURS_def
        MAX_WINDOW_REQUEST_COUNT_def)
qed

text \<open>
  C5. When the middleware denies a request it leaves the store as it was: no \<^verbatim>\<open>SET\<close>
  is sent, and every stored value is unchanged.
\<close>

theorem deny_leaves_store_untouched:
  assumes "denied (fst (customRedisRateLimiter r ip clock1 clock2))"
  shows "snd (customRedisRateLimiter r ip clock1 clock2) = r"
  using assms
  by (auto simp: customRedisRateLimiter_def Let_def denied_def
      split: option.splits sum.splits if_splits)

theorem deny_leaves_store_untouched_witness:
  "denied (fst (customRedisRateLimiter
             (store_of client (Array (buckets [(0, 110)]))) client 30000 30000))
   \<and> snd (customRedisRateLimiter
             (store_of client (Array (buckets [(0, 110)]))) client 30000 30000)
       = store_of client (Array (buckets [(0, 110)]))"
proof -
  have h: "denied (fst (customRedisRateLimiter
             (store_of client (Array (buckets [(0, 110)]))) client 30000 30000))"
    by code_simp
  show ?thesis
    using h deny_leaves_store_untouched [OF h] by simp
qed

subsection \<open>The first request of a client\<close>

text \<open>
  C6. When the store holds no log for the client key, the middleware allows the request
  and writes a log of one bucket, \<^verbatim>\<open>{requestTimeStamp: now, requestCount: 1}\<close>, under
  that key.
\<close>

theorem cold_start_allows_with_one_bucket:
  assumes "db r ip = None"
  shows "customRedisRateLimiter r ip clock1 clock2 =
           (Next, r\<lparr>db := (db r)(ip \<mapsto> Array [bucket (unix clock1) 1]),
                    set_calls := set_calls r @ [(ip, Array [bucket (unix clock1) 1])]\<rparr>)"
  using assms
  by (simp add: customRedisRateLimiter_def getAsync_def setAsync_def JSON_stringify_def
      stringify_number_def bucket_def Let_def)

theorem cold_start_allows_with_one_bucket_witness:
  "db fresh_redis client = None
   \<and> customRedisRateLimiter fresh_redis client 5000 5000 =
       (Next, fresh_redis\<lparr>db := (db fresh_redis)(client \<mapsto> Array [bucket (unix 5000) 1]),
                set_calls := set_calls fresh_redis @ [(client, Array [bucket (unix 5000) 1])]\<rparr>)"
proof -
  have h: "db fresh_redis client = None"
    by (simp add: fresh_redis_def)
  show ?thesis
    using h cold_start_allows_with_one_bucket [OF h, of 5000 5000] by simp
qed

subsection \<open>The order of the buckets\<close>

text \<open>
  C7. The specification says that after any sequence of Allow decisions the stored
  buckets are strictly ordered by timestamp, each with a count of at least 1. A first
  request at second 0 and a second one at second 3600 are both allowed; the second opens
  a new bucket, and the timestamp the middleware gives it is one hour back, second 0:
  the log holds two buckets with the same timestamp.
\<close>

theorem equal_timestamps_scenario:
  "fst (run fresh_redis client (map at_second [0, 3600])) = [Next, Next]
   \<and> db (snd (run fresh_redis client (map at_second [0, 3600]))) client
       = Some (Array (buckets [(0, 1), (0, 1)]))"
  by code_simp

subsection \<open>Stored values that are not logs\<close>

text \<open>
  C8. The specification says that a stored value that cannot be parsed as a valid log
  makes the evaluation fail with an error that is neither Allow nor Deny. The middleware
  parses the value as JSON and validates nothing else, so what holds is this: when the
  stored value is not JSON, or is JSON that is not an array, the middleware hands an
  error to \<^verbatim>\<open>next\<close>, which is neither Allow nor Deny, and leaves the store as it was.
\<close>

theorem unparseable_value_is_error:
  assumes "db r ip = Some v"
    and "v = Not_JSON \<or> v = Not_Array"
  shows "\<exists>e. customRedisRateLimiter r ip clock1 clock2 = (NextError e, r)"
  using assms
  by (auto simp: customRedisRateLimiter_def getAsync_def JSON_parse_def)

theorem unparseable_value_is_error_witness:
  "db (store_of client Not_JSON) client = Some Not_JSON
   \<and> (Not_JSON = Not_JSON \<or> Not_JSON = Not_Array)
   \<and> (\<exists>e. customRedisRateLimiter (store_of client Not_JSON) client 5000 5000
             = (NextError e, store_of client Not_JSON))"
proof -
  have h1: "db (store_of client Not_JSON) client = Some Not_JSON"
    by (simp add: store_of_def)
  have h2: "Not_JSON = Not_JSON \<or> Not_JSON = Not_Array"
    by simp
  show ?thesis
    using h1 h2 unparseable_value_is_error [OF h1 h2, of 5000 5000] by simp
qed

text \<open>
  The stored text \<^verbatim>\<open>[{}]\<close> is JSON, an array of one object without the fields of a
  bucket. The middleware counts nothing for it, allows the request and writes the array
  back with a new bucket appended.
\<close>

theorem malformed_entry_counterexample:
  "customRedisRateLimiter
     (store_of client (Array [\<lparr>requestTimeStamp = Undefined, requestCount = Undefined\<rparr>]))
     client 3700000 3700000
   = (Next,
      setAsync
        (store_of client (Array [\<lparr>requestTimeStamp = Undefined, requestCount = Undefined\<rparr>]))
        client
        (Array [\<lparr>requestTimeStamp = Undefined, requestCount = Undefined\<rparr>, bucket 100 1]))"
  by (simp add: customRedisRateLimiter_def getAsync_def store_of_def JSON_parse_def
      JSON_stringify_def stringify_number_def parse_number_def Let_def js_gt_def js_ge_def
      ToNumber_def unix_def subtract_hours_def bucket_def MAX_WINDOW_REQUEST_COUNT_def
      WINDOW_SIZE_IN_HOURS_def WINDOW_LOG_INTERVAL_IN_HOURS_def)

subsection \<open>The client key\<close>

text \<open>
  C9. The specification says that an evaluation with a missing or empty client key fails
  fast with an InvalidInput error. The middleware does not look at the key, so what holds
  is this: an evaluation with the empty client key is the ordinary quota evaluation keyed
  on the empty string; it gives the response, and stores under its key the value, that
  any other key with the same stored value gets.
\<close>

theorem empty_key_is_evaluated:
  assumes "db r '''' = db r' k"
  shows "fst (customRedisRateLimiter r '''' clock1 clock2)
           = fst (customRedisRateLimiter r' k clock1 clock2)
         \<and> db (snd (customRedisRateLimiter r '''' clock1 clock2)) ''''
           = db (snd (customRedisRateLimiter r' k clock1 clock2)) k"
  using assms
  by (auto simp: customRedisRateLimiter_def getAsync_def setAsync_def Let_def
      split: option.splits sum.splits)

theorem empty_key_is_evaluated_witness:
  "db fresh_redis '''' = db fresh_redis client
   \<and> fst (customRedisRateLimiter fresh_redis '''' 5000 5000)
       = fst (customRedisRateLimiter fresh_redis client 5000 5000)
   \<and> db (snd (customRedisRateLimiter fresh_redis '''' 5000 5000)) ''''
       = db (snd (customRedisRateLimiter fresh_redis client 5000 5000)) client"
proof -
  have h: "db fresh_redis '''' = db fresh_redis client"
    by (simp add: fresh_redis_def)
  show ?thesis
    using h empty_key_is_evaluated [OF h, of 5000 5000] by simp
qed

text \<open>
  With the empty key and an empty store the request is allowed and a log is written
  under the empty string.
\<close>

theorem empty_key_counterexample:
  "fst (customRedisRateLimiter fresh_redis '''' 0 0) = Next
   \<and> db (snd (customRedisRateLimiter fresh_redis '''' 0 0)) ''''
       = Some (Array (buckets [(0, 1)]))"
  by code_simp

subsection \<open>The empty log\<close>

text \<open>
  C10. When the stored value parses to an empty array, the middleware neither allows nor
  denies: reading the timestamp of the last entry, which does not exist, raises a
  TypeError, and the error is handed to \<^verbatim>\<open>next\<close>; the store is left as it was.
\<close>

theorem empty_log_is_error:
  assumes "db r ip = Some (Array [])"
  shows "customRedisRateLimiter r ip clock1 clock2 = (NextError TypeError, r)"
  using assms
  by (simp add: customRedisRateLimiter_def getAsync_def JSON_parse_def js_ge_def ToNumber_def
      MAX_WINDOW_REQUEST_COUNT_def)

theorem empty_log_is_error_witness:
  "db (store_of client (Array [])) client = Some (Array [])
   \<and> customRedisRateLimiter (store_of client (Array [])) client 5000 5000
       = (NextError TypeError, store_of client (Array []))"
proof -
  have h: "db (store_of client (Array [])) client = Some (Array [])"
    by (simp add: store_of_def)
  show ?thesis
    using h empty_log_is_error [OF h, of 5000 5000] by simp
qed

end
